theory Spec2Isabelle
  imports Main
begin

section \<open>Run-time faults\<close>

text \<open>
  Go panics are values of the model: an index or slice bound that is out of range,
  a negative length given to \<^verbatim>\<open>make\<close>, and a call of a nil function value.
  Loop indices, heights and positions are Go integers that run from 0 up to the length of
  a string or slice held in memory; they are modelled as natural numbers, and the places
  where the code could step outside that range are branches that return a fault.
\<close>

datatype fault = IndexOutOfRange | SliceBoundsOutOfRange | MakeSliceLenOutOfRange | NilFuncCall

section \<open>parsePattern\<close>

text \<open>
  Go strings are byte sequences; \<^typ>\<open>string\<close> is a list of 8-bit characters.
  \<^verbatim>\<open>pattern[a:b]\<close> is \<open>slice pattern a b\<close>. In \<open>parseLoop\<close> the variable
  \<open>start\<close> is 0 or one more than an earlier value of \<open>i\<close>, so every slice the loop
  takes has \<open>start \<le> i \<le> len(pattern)\<close>.
\<close>

definition slice :: "string \<Rightarrow> nat \<Rightarrow> nat \<Rightarrow> string" where
  "slice s a b = take (b - a) (drop a s)"

text \<open>
  The \<^verbatim>\<open>for\<close> loop of \<^verbatim>\<open>parsePattern\<close>. The state is the index \<open>i\<close>, \<open>start\<close>
  and \<open>parts\<close>; the result also carries \<open>isWild\<close>, which is set only when the loop
  leaves through \<^verbatim>\<open>break\<close>.
\<close>

function parseLoop :: "string \<Rightarrow> nat \<Rightarrow> nat \<Rightarrow> string list \<Rightarrow> string list \<times> nat \<times> bool" where
  "parseLoop pattern i start parts =
     (if i < length pattern then
        (if pattern ! i = CHR ''/'' then
           parseLoop pattern (i + 1) (i + 1)
             (if start \<noteq> i then parts @ [slice pattern start i] else parts)
         else if pattern ! i = CHR ''*'' then
           ((if start \<noteq> i then parts @ [slice pattern start i] else parts) @ [drop i pattern],
            start, True)
         else parseLoop pattern (i + 1) start parts)
      else (parts, start, False))"
  by pat_completeness auto
termination
  by (relation "measure (\<lambda>(pattern, i, start, parts). length pattern - i)") auto

declare parseLoop.simps [simp del]

definition parsePattern :: "string \<Rightarrow> string list" where
  "parsePattern pattern =
     (case parseLoop pattern 0 0 [] of
        (parts, start, isWild) \<Rightarrow>
          if \<not> isWild \<and> start < length pattern then parts @ [drop start pattern] else parts)"

section \<open>joinParts\<close>

text \<open>
  \<^verbatim>\<open>copy(joined[pos:], part)\<close> writes \<open>min (len(joined) - pos) (len(part))\<close> bytes
  at \<open>pos\<close>; the slice expression itself panics when \<open>pos\<close> exceeds the length.
\<close>

definition copyAt :: "string \<Rightarrow> nat \<Rightarrow> string \<Rightarrow> string" where
  "copyAt joined pos src =
     take pos joined @ take (length joined - pos) src @ drop (pos + length src) joined"

fun joinLength :: "string list \<Rightarrow> int \<Rightarrow> int" where
  "joinLength [] len = len"
| "joinLength (p # ps) len = joinLength ps (len + int (length p) + 1)"

fun joinLoop :: "string list \<Rightarrow> int \<Rightarrow> string \<Rightarrow> nat \<Rightarrow> fault + string" where
  "joinLoop [] len joined pos = Inr joined"
| "joinLoop (p # ps) len joined pos =
     (if length joined < pos then Inl SliceBoundsOutOfRange
      else
        let joined1 = copyAt joined pos p;
            pos1 = pos + length p
        in if int pos1 < len - 1
           then joinLoop ps len (joined1[pos1 := CHR ''/'']) (pos1 + 1)
           else joinLoop ps len joined1 pos1)"

definition joinParts :: "string list \<Rightarrow> fault + string" where
  "joinParts parts =
     (let len = joinLength parts 0
      in if len - 1 < 0 then Inl MakeSliceLenOutOfRange
         else joinLoop parts len (replicate (nat (len - 1)) (CHR 0x00)) 0)"

section \<open>The routing tree\<close>

text \<open>
  \<^verbatim>\<open>type node struct { pattern, part string; children []*node; isWild bool }\<close>.
  Every node is owned by exactly one parent (or is a root held by the router), so the
  pointer structure is a tree and a node is modelled by its value.
\<close>

datatype node = Node (pattern: string) (part: string) (children: "node list") (isWild: bool)

text \<open>
  \<^verbatim>\<open>matchChildren\<close> returns a pointer to the first child that matches; the pointer is
  modelled by the position of that child in \<open>children\<close>.
\<close>

fun matchIndex :: "node list \<Rightarrow> string \<Rightarrow> nat option" where
  "matchIndex [] p = None"
| "matchIndex (child # rest) p =
     (if part child = p \<or> isWild child then Some 0
      else map_option Suc (matchIndex rest p))"

definition matchChildren :: "node \<Rightarrow> string \<Rightarrow> nat option" where
  "matchChildren n p = matchIndex (children n) p"

text \<open>
  \<^verbatim>\<open>insert\<close> mutates the tree below \<open>n\<close> in place; the model returns the new tree.
  \<^verbatim>\<open>parts[height]\<close> and \<^verbatim>\<open>part[0]\<close> panic out of range.
\<close>

function insert_node :: "node \<Rightarrow> string \<Rightarrow> string list \<Rightarrow> nat \<Rightarrow> fault + node" where
  "insert_node n pat parts height =
     (if length parts = height then Inr (Node pat (part n) (children n) (isWild n))
      else if length parts < height then Inl IndexOutOfRange
      else
        let p = parts ! height in
        case matchChildren n p of
          None \<Rightarrow>
            (if p = [] then Inl IndexOutOfRange
             else
               case insert_node (Node [] p [] (hd p = CHR '':'' \<or> hd p = CHR ''*''))
                      pat parts (height + 1) of
                 Inl e \<Rightarrow> Inl e
               | Inr child \<Rightarrow>
                   Inr (Node (pattern n) (part n) (children n @ [child]) (isWild n)))
        | Some k \<Rightarrow>
            (case insert_node (children n ! k) pat parts (height + 1) of
               Inl e \<Rightarrow> Inl e
             | Inr child \<Rightarrow>
                 Inr (Node (pattern n) (part n) ((children n)[k := child]) (isWild n))))"
  by pat_completeness auto
termination
  by (relation "measure (\<lambda>(n, pat, parts, height). length parts - height)") auto

declare insert_node.simps [simp del]

text \<open>
  \<^verbatim>\<open>search\<close> and its loop over the children. A result is a pointer to a node of the
  tree, modelled by the node's value; \<open>None\<close> is \<^verbatim>\<open>nil\<close>.
\<close>

fun search :: "node \<Rightarrow> string list \<Rightarrow> nat \<Rightarrow> fault + node option"
  and searchChildren :: "node list \<Rightarrow> string list \<Rightarrow> nat \<Rightarrow> string \<Rightarrow> fault + node option" where
  "search (Node pat prt cs wild) parts height =
     (if length parts = height \<or> wild then
        (if pat = [] then Inr None else Inr (Some (Node pat prt cs wild)))
      else if length parts < height then Inl IndexOutOfRange
      else searchChildren cs parts height (parts ! height))"
| "searchChildren [] parts height p = Inr None"
| "searchChildren (child # rest) parts height p =
     (if part child = p \<or> isWild child then
        (case search child parts (height + 1) of
           Inl e \<Rightarrow> Inl e
         | Inr (Some result) \<Rightarrow> Inr (Some result)
         | Inr None \<Rightarrow> searchChildren rest parts height p)
      else searchChildren rest parts height p)"

section \<open>The route registry\<close>

text \<open>
  \<^verbatim>\<open>type router struct { root map[string]*node; handlers map[string]HandlerFunc }\<close>.
  A handler is a Go function value; the model keeps handlers abstract (type \<open>'h\<close>) and
  records which one is called.
\<close>

record 'h router =
  root :: "string \<rightharpoonup> node"
  handlers :: "string \<rightharpoonup> 'h"

definition NewRouter :: "'h router" where
  "NewRouter = \<lparr> root = Map.empty, handlers = Map.empty \<rparr>"

definition AddRoutes :: "'h router \<Rightarrow> string \<Rightarrow> string \<Rightarrow> 'h \<Rightarrow> fault + 'h router" where
  "AddRoutes r method pat handler =
     (let parts = parsePattern pat;
          key = method @ ''_'' @ pat;
          n = (case root r method of None \<Rightarrow> Node [] [] [] False | Some n \<Rightarrow> n)
      in case insert_node n pat parts 0 of
           Inl e \<Rightarrow> Inl e
         | Inr n' \<Rightarrow> Inr (r\<lparr> root := (root r)(method \<mapsto> n'),
                              handlers := (handlers r)(key \<mapsto> handler) \<rparr>))"

text \<open>The \<^verbatim>\<open>range parts\<close> loop of \<^verbatim>\<open>getRoute\<close>, at index \<open>i\<close>.\<close>

fun extractParams ::
  "string list \<Rightarrow> nat \<Rightarrow> string list \<Rightarrow> (string \<rightharpoonup> string) \<Rightarrow> fault + (string \<rightharpoonup> string)" where
  "extractParams [] i searchParts params = Inr params"
| "extractParams (p # ps) i searchParts params =
     (if p = [] then Inl IndexOutOfRange
      else if hd p = CHR '':'' then
        (if i < length searchParts
         then extractParams ps (i + 1) searchParts (params(tl p \<mapsto> searchParts ! i))
         else Inl IndexOutOfRange)
      else if hd p = CHR ''*'' then
        (if length searchParts < i then Inl SliceBoundsOutOfRange
         else case joinParts (drop i searchParts) of
                Inl e \<Rightarrow> Inl e
              | Inr joined \<Rightarrow> Inr (params(tl p \<mapsto> joined)))
      else extractParams ps (i + 1) searchParts params)"

definition getRoute ::
  "'h router \<Rightarrow> string \<Rightarrow> string \<Rightarrow> fault + (node \<times> (string \<rightharpoonup> string)) option" where
  "getRoute r method path =
     (let searchParts = parsePattern path in
      case root r method of
        None \<Rightarrow> Inr None
      | Some rt \<Rightarrow>
          (case search rt searchParts 0 of
             Inl e \<Rightarrow> Inl e
           | Inr None \<Rightarrow> Inr None
           | Inr (Some n) \<Rightarrow>
               (case extractParams (parsePattern (pattern n)) 0 searchParts Map.empty of
                  Inl e \<Rightarrow> Inl e
                | Inr params \<Rightarrow> Inr (Some (n, params)))))"

section \<open>Request context and continuation\<close>

text \<open>
  \<^verbatim>\<open>*http.Request\<close> is reduced to the two fields the core reads, \<^verbatim>\<open>Method\<close> and
  \<^verbatim>\<open>URL.Path\<close>; the response writer is kept abstract (type \<open>'w\<close>).
\<close>

record request =
  Method :: string
  Path :: string

record Config =
  AllowOrigins :: "string list"
  AllowMethods :: "string list"
  AllowCredentials :: bool

text \<open>
  The cursor \<open>current\<close> is a Go \<^verbatim>\<open>int\<close>, taken as 64 bits wide:
  \<^verbatim>\<open>ctx.current++\<close> wraps from \<open>2^63 - 1\<close> to \<open>- 2^63\<close>.
  A nil \<^verbatim>\<open>Params\<close> map and a nil \<^verbatim>\<open>middleware\<close> slice read as empty.
\<close>

definition maxInt :: int where
  "maxInt = 9223372036854775807"

definition incr :: "int \<Rightarrow> int" where
  "incr x = (if x = maxInt then - maxInt - 1 else x + 1)"

record ('h, 'w) Context =
  Request :: request
  ResponseWriter :: 'w
  Params :: "string \<rightharpoonup> string"
  HTTPMethod :: string
  RoutePath :: string
  ResponseCode :: int
  current :: int
  config :: Config
  middleware :: "'h list"

definition newContext :: "'w \<Rightarrow> request \<Rightarrow> Config \<Rightarrow> ('h, 'w) Context" where
  "newContext w r cfg =
     \<lparr> Request = r, ResponseWriter = w, Params = Map.empty, HTTPMethod = Method r,
       RoutePath = Path r, ResponseCode = 0, current = - 1, config = cfg, middleware = [] \<rparr>"

text \<open>
  \<^verbatim>\<open>Next\<close> returns the context after the increment and the middleware it calls with
  that context, if any. An index below zero would panic.
\<close>

definition Next :: "('h, 'w) Context \<Rightarrow> fault + ('h, 'w) Context \<times> 'h option" where
  "Next ctx =
     (let ctx1 = ctx\<lparr> current := incr (current ctx) \<rparr>
      in if current ctx1 < int (length (middleware ctx1)) then
           (if current ctx1 < 0 then Inl IndexOutOfRange
            else Inr (ctx1, Some (middleware ctx1 ! nat (current ctx1))))
         else Inr (ctx1, None))"

section \<open>Dispatch\<close>

text \<open>
  What \<^verbatim>\<open>handle\<close> does to the outside: it calls one handler with the context, or
  it calls \<^verbatim>\<open>http.Error(w, body, code)\<close>.
\<close>

datatype ('h, 'w) effect = Call 'h "('h, 'w) Context" | HttpError 'w string nat

definition StatusNotFound :: nat where
  "StatusNotFound = 404"

definition handle :: "'h router \<Rightarrow> ('h, 'w) Context \<Rightarrow> fault + ('h, 'w) effect" where
  "handle r ctx =
     (case getRoute r (HTTPMethod ctx) (RoutePath ctx) of
        Inl e \<Rightarrow> Inl e
      | Inr (Some (n, params)) \<Rightarrow>
          (let ctx1 = ctx\<lparr> Params := params \<rparr>;
               key = HTTPMethod ctx @ ''_'' @ pattern n
           in case handlers r key of
                None \<Rightarrow> Inl NilFuncCall
              | Some h \<Rightarrow> Inr (Call h ctx1))
      | Inr None \<Rightarrow> Inr (HttpError (ResponseWriter ctx) ''NOT FOUND'' StatusNotFound))"

section \<open>Groups and the engine\<close>

text \<open>
  \<^verbatim>\<open>Engine.groups\<close> is a slice of pointers to groups, and \<^verbatim>\<open>Use\<close> mutates a group
  through its pointer. The model stores the groups in the list and a pointer to a group is
  its position there: \<^verbatim>\<open>New\<close> puts the root group at position 0 and \<^verbatim>\<open>Group\<close>
  appends, so the position of a group never changes.
\<close>

record 'h RouterGroup =
  prefix :: string
  middlewares :: "'h list"
  parent :: "nat option"

record 'h Engine =
  router :: "'h router"
  groups :: "'h RouterGroup list"
  engineConfig :: Config

definition New :: "Config list \<Rightarrow> 'h Engine" where
  "New cfg =
     \<lparr> router = NewRouter,
       groups = [\<lparr> prefix = [], middlewares = [], parent = None \<rparr>],
       engineConfig = (case cfg of [] \<Rightarrow> \<lparr> AllowOrigins = [], AllowMethods = [],
                                          AllowCredentials = False \<rparr>
                       | c # _ \<Rightarrow> c) \<rparr>"

definition Group :: "'h Engine \<Rightarrow> nat \<Rightarrow> string \<Rightarrow> 'h Engine \<times> nat" where
  "Group e g pfx =
     (e\<lparr> groups := groups e @
            [\<lparr> prefix = prefix (groups e ! g) @ pfx, middlewares = [], parent = Some g \<rparr>] \<rparr>,
      length (groups e))"

definition Use :: "'h Engine \<Rightarrow> nat \<Rightarrow> 'h list \<Rightarrow> 'h Engine" where
  "Use e g mws =
     e\<lparr> groups := (groups e)[g := (groups e ! g)
                      \<lparr> middlewares := middlewares (groups e ! g) @ mws \<rparr>] \<rparr>"

text \<open>\<^verbatim>\<open>strings.HasPrefix(s, p)\<close> is \<^verbatim>\<open>len(s) >= len(p) && s[:len(p)] == p\<close>.\<close>

definition HasPrefix :: "string \<Rightarrow> string \<Rightarrow> bool" where
  "HasPrefix s p = (length p \<le> length s \<and> take (length p) s = p)"

text \<open>The loop over \<^verbatim>\<open>e.groups\<close> at the start of \<^verbatim>\<open>ServeHTTP\<close>.\<close>

fun assignMiddlewares :: "'h RouterGroup list \<Rightarrow> string \<Rightarrow> 'h list \<Rightarrow> 'h list" where
  "assignMiddlewares [] path mws = mws"
| "assignMiddlewares (g # gs) path mws =
     assignMiddlewares gs path
       (if HasPrefix path (prefix g) then mws @ middlewares g else mws)"

definition ServeHTTP :: "'h Engine \<Rightarrow> 'w \<Rightarrow> request \<Rightarrow> fault + ('h, 'w) effect" where
  "ServeHTTP e w req =
     (let mws = assignMiddlewares (groups e) (Path req) [];
          ctx = newContext w req (engineConfig e);
          ctx1 = ctx\<lparr> middleware := mws \<rparr>
      in handle (router e) ctx1)"

section \<open>Registration sequences\<close>

text \<open>
  A router in use is a fresh one after some sequence of registrations
  \<open>(method, pattern, handler)\<close>; a panic in one of them ends the sequence.
\<close>

fun registerAll :: "'h router \<Rightarrow> (string \<times> string \<times> 'h) list \<Rightarrow> fault + 'h router" where
  "registerAll r [] = Inr r"
| "registerAll r ((method, pat, handler) # regs) =
     (case AddRoutes r method pat handler of
        Inl e \<Rightarrow> Inl e
      | Inr r1 \<Rightarrow> registerAll r1 regs)"

section \<open>Auxiliary notions for the proofs\<close>

text \<open>
  The parser as a recursion on the text that is left, with the segment read so far in
  \<open>cur\<close>; \<open>finish\<close> is the last statement of \<^verbatim>\<open>parsePattern\<close>.
\<close>

fun splitFrom :: "string \<Rightarrow> string \<Rightarrow> string list" where
  "splitFrom cur [] = (if cur = [] then [] else [cur])"
| "splitFrom cur (c # cs) =
     (if c = CHR ''/'' then (if cur = [] then [] else [cur]) @ splitFrom [] cs
      else if c = CHR ''*'' then (if cur = [] then [] else [cur]) @ [c # cs]
      else splitFrom (cur @ [c]) cs)"

definition finish :: "string \<Rightarrow> string list \<times> nat \<times> bool \<Rightarrow> string list" where
  "finish s st =
     (case st of (parts, start, w) \<Rightarrow>
        if \<not> w \<and> start < length s then parts @ [drop start s] else parts)"

text \<open>
  Joining with a single \<open>/\<close> between consecutive parts and none after the last, as the
  specification words it.
\<close>

fun joinWithSlash :: "string list \<Rightarrow> string" where
  "joinWithSlash [] = []"
| "joinWithSlash [x] = x"
| "joinWithSlash (x # y # ys) = x @ CHR ''/'' # joinWithSlash (y # ys)"

text \<open>
  The invariant of a tree: a node at depth \<open>d\<close> that ends a route stores a pattern of
  \<open>d\<close> segments that satisfies \<open>P\<close>.
\<close>

fun wf_node :: "(string \<Rightarrow> bool) \<Rightarrow> nat \<Rightarrow> node \<Rightarrow> bool" where
  "wf_node P d (Node pat prt cs w) =
     ((pat \<noteq> [] \<longrightarrow> length (parsePattern pat) = d \<and> P pat) \<and>
      (\<forall>c \<in> set cs. wf_node P (Suc d) c))"

definition router_ok :: "'h router \<Rightarrow> bool" where
  "router_ok r =
     (\<forall>m rt. root r m = Some rt \<longrightarrow>
        \<not> isWild rt \<and> wf_node (\<lambda>pat. handlers r (m @ ''_'' @ pat) \<noteq> None) 0 rt)"

text \<open>The nodes that lie \<open>d\<close> levels below a node.\<close>

fun descendantsAt :: "nat \<Rightarrow> node \<Rightarrow> node list" where
  "descendantsAt 0 n = [n]"
| "descendantsAt (Suc d) n = concat (map (descendantsAt d) (children n))"

section \<open>Lemmas on parsing and joining\<close>

lemma slice_empty_iff: "start \<le> i \<Longrightarrow> i \<le> length p \<Longrightarrow> slice p start i = [] \<longleftrightarrow> start = i"
  by (auto simp: slice_def)

lemma slice_Suc: "start \<le> i \<Longrightarrow> i < length p \<Longrightarrow> slice p start (Suc i) = slice p start i @ [p ! i]"
  by (simp add: slice_def Suc_diff_le take_Suc_conv_app_nth)

lemma parseLoop_splitFrom:
  "start \<le> i \<Longrightarrow> i \<le> length p \<Longrightarrow>
   finish p (parseLoop p i start parts) = parts @ splitFrom (slice p start i) (drop i p)"
proof (induction p i start parts rule: parseLoop.induct)
  case (1 pat i start parts)
  show ?case
  proof (cases "i < length pat")
    case False
    with "1.prems" have i: "i = length pat" by simp
    then show ?thesis
      using "1.prems"(1) by (subst parseLoop.simps) (auto simp: finish_def slice_def)
  next
    case True
    then have dr: "drop i pat = pat ! i # drop (Suc i) pat"
      by (simp add: Cons_nth_drop_Suc)
    have emp: "slice pat start i = [] \<longleftrightarrow> start = i"
      using "1.prems" by (rule slice_empty_iff)
    have emp2: "slice pat (Suc i) (Suc i) = []" by (simp add: slice_def)
    show ?thesis
    proof (cases "pat ! i = CHR ''/''")
      case slash: True
      have "finish pat (parseLoop pat i start parts) =
            finish pat (parseLoop pat (i + 1) (i + 1)
               (if start \<noteq> i then parts @ [slice pat start i] else parts))"
        using True slash by (subst parseLoop.simps) simp
      also have "\<dots> = (if start \<noteq> i then parts @ [slice pat start i] else parts)
                    @ splitFrom (slice pat (i+1) (i+1)) (drop (i+1) pat)"
        using "1.IH"(1)[OF True slash] True by simp
      finally show ?thesis using slash dr emp emp2 by auto
    next
      case noslash: False
      show ?thesis
      proof (cases "pat ! i = CHR ''*''")
        case star: True
        show ?thesis using True noslash star dr emp
          by (subst parseLoop.simps) (auto simp: finish_def)
      next
        case nostar: False
        have "finish pat (parseLoop pat i start parts) =
              finish pat (parseLoop pat (i + 1) start parts)"
          using True noslash nostar by (subst parseLoop.simps) simp
        also have "\<dots> = parts @ splitFrom (slice pat start (i+1)) (drop (i+1) pat)"
          using "1.IH"(2)[OF True noslash nostar] True "1.prems"(1) by simp
        finally show ?thesis using noslash nostar dr slice_Suc[OF "1.prems"(1) True] by simp
      qed
    qed
  qed
qed

lemma parsePattern_splitFrom: "parsePattern p = splitFrom [] p"
  using parseLoop_splitFrom[of 0 0 p "[]"]
  by (simp add: parsePattern_def finish_def slice_def)

lemma splitFrom_nonempty: "s \<in> set (splitFrom cur p) \<Longrightarrow> s \<noteq> []"
  by (induction p arbitrary: cur) (auto split: if_splits)

lemma splitFrom_star:
  "CHR ''*'' \<notin> set pre \<Longrightarrow>
   splitFrom cur (pre @ CHR ''*'' # rest) = splitFrom cur (pre) @ [CHR ''*'' # rest]"
  by (induction pre arbitrary: cur) auto


lemma joinLength_sum: "joinLength ps a = a + (\<Sum>p\<leftarrow>ps. int (length p) + 1)"
  by (induction ps arbitrary: a) auto

lemma copyAt_fill:
  "length src \<le> k \<Longrightarrow>
   copyAt (pre @ replicate k z) (length pre) src = pre @ src @ replicate (k - length src) z"
  by (simp add: copyAt_def)

lemma joinLoop_fill:
  "ps \<noteq> [] \<Longrightarrow> len = int (length pre + k) + 1 \<Longrightarrow>
   int k + 1 = (\<Sum>p\<leftarrow>ps. int (length p) + 1) \<Longrightarrow>
   joinLoop ps len (pre @ replicate k z) (length pre) = Inr (pre @ joinWithSlash ps)"
proof (induction ps arbitrary: pre k rule: joinWithSlash.induct)
  case 1
  then show ?case by simp
next
  case (2 x)
  then have k: "k = length x" by simp
  show ?case using 2(2) by (simp add: k copyAt_fill)
next
  case (3 x y ys)
  from 3(4) have k: "int k = int (length x) + 1 + (\<Sum>p\<leftarrow>ys. int (length p) + 1) + int (length y)"
    by simp
  have nn: "0 \<le> (\<Sum>p\<leftarrow>ys. int (length p) + 1)"
    by (rule sum_list_nonneg) auto
  define k' where "k' = k - length x - 1"
  from k nn have "int (length x) + 1 \<le> int k" by linarith
  then have "length x + 1 \<le> k" by linarith
  then have k': "k = length x + Suc k'" by (simp add: k'_def)
  have cp: "copyAt (pre @ replicate k z) (length pre) x = pre @ x @ replicate (Suc k') z"
    using copyAt_fill[of x k pre z] k' by simp
  have upd: "(pre @ x @ replicate (Suc k') z)[length pre + length x := CHR ''/'']
             = (pre @ x @ [CHR ''/'']) @ replicate k' z"
    by (simp add: list_update_append)
  have "joinLoop (x # y # ys) len (pre @ replicate k z) (length pre)
        = joinLoop (y # ys) len ((pre @ x @ [CHR ''/'']) @ replicate k' z) (length (pre @ x @ [CHR ''/'']))"
    using 3(3) k' cp upd by (simp add: Let_def)
  also have "\<dots> = Inr ((pre @ x @ [CHR ''/'']) @ joinWithSlash (y # ys))"
    using 3(3,4) k' by (intro 3(1)) auto
  finally show ?case by simp
qed

lemma joinParts_nonempty:
  assumes "ps \<noteq> []"
  shows "joinParts ps = Inr (joinWithSlash ps)"
proof -
  define len where "len = joinLength ps 0"
  have len: "len = (\<Sum>p\<leftarrow>ps. int (length p) + 1)"
    by (simp add: len_def joinLength_sum)
  obtain q qs where ps: "ps = q # qs" using assms by (cases ps) auto
  have "0 \<le> (\<Sum>p\<leftarrow>qs. int (length p) + 1)"
    by (rule sum_list_nonneg) auto
  then have pos: "1 \<le> len" using len ps by simp
  have "joinLoop ps len ([] @ replicate (nat (len - 1)) (CHR 0x00)) (length ([] :: string))
        = Inr ([] @ joinWithSlash ps)"
    using assms pos len by (intro joinLoop_fill) auto
  then show ?thesis
    using pos by (simp add: joinParts_def Let_def len_def)
qed

lemma joinParts_empty: "joinParts [] = Inl MakeSliceLenOutOfRange"
  by (simp add: joinParts_def)

lemma splitFrom_plain:
  "s \<in> set (splitFrom cur p) \<Longrightarrow> CHR ''*'' \<notin> set p \<Longrightarrow>
   CHR ''*'' \<notin> set cur \<Longrightarrow> CHR ''/'' \<notin> set cur \<Longrightarrow>
   CHR ''/'' \<notin> set s \<and> CHR ''*'' \<notin> set s"
proof (induction p arbitrary: cur)
  case Nil
  then show ?case by (auto split: if_splits)
next
  case (Cons c cs)
  show ?case
  proof (cases "c = CHR ''/''")
    case True
    then have "s = cur \<or> s \<in> set (splitFrom [] cs)"
      using Cons.prems(1) by (auto split: if_splits)
    then show ?thesis
    proof
      assume "s = cur"
      then show ?thesis using Cons.prems by simp
    next
      assume "s \<in> set (splitFrom [] cs)"
      then show ?thesis using Cons.IH[of "[]"] Cons.prems(2) by simp
    qed
  next
    case False
    then have "s \<in> set (splitFrom (cur @ [c]) cs)"
      using Cons.prems(1,2) by (auto split: if_splits)
    then show ?thesis using Cons.IH[of "cur @ [c]"] Cons.prems False by simp
  qed
qed

lemma splitFrom_append_plain:
  "CHR ''/'' \<notin> set s \<Longrightarrow> CHR ''*'' \<notin> set s \<Longrightarrow>
   splitFrom cur (s @ rest) = splitFrom (cur @ s) rest"
  by (induction s arbitrary: cur) auto

lemma splitFrom_joinWithSlash:
  "(\<forall>x \<in> set xs. x \<noteq> [] \<and> CHR ''/'' \<notin> set x \<and> CHR ''*'' \<notin> set x) \<Longrightarrow>
   splitFrom [] (joinWithSlash xs) = xs"
proof (induction xs rule: joinWithSlash.induct)
  case 1
  then show ?case by simp
next
  case (2 x)
  then show ?case using splitFrom_append_plain[of x "[]" "[]"] by simp
next
  case (3 x y ys)
  then show ?case
    using splitFrom_append_plain[of x "[]" "CHR ''/'' # joinWithSlash (y # ys)"] by simp
qed

section \<open>The tree invariant\<close>

lemma matchIndex_Some:
  "matchIndex cs p = Some k \<Longrightarrow> k < length cs \<and> (part (cs ! k) = p \<or> isWild (cs ! k))"
  by (induction cs arbitrary: k) (auto split: if_splits)

lemma matchIndex_None:
  "matchIndex cs p = None \<Longrightarrow> c \<in> set cs \<Longrightarrow> part c \<noteq> p \<and> \<not> isWild c"
  by (induction cs) (auto split: if_splits)

lemma wf_node_sel:
  "wf_node P d n \<longleftrightarrow>
     (pattern n \<noteq> [] \<longrightarrow> length (parsePattern (pattern n)) = d \<and> P (pattern n)) \<and>
     (\<forall>c \<in> set (children n). wf_node P (Suc d) c)"
  by (cases n) simp

lemma wf_node_mono:
  "wf_node P d n \<Longrightarrow> (\<And>x. P x \<Longrightarrow> Q x) \<Longrightarrow> wf_node Q d n"
  by (induction P d n rule: wf_node.induct) auto

lemma insert_node_total:
  "(\<forall>s \<in> set parts. s \<noteq> []) \<Longrightarrow> h \<le> length parts \<Longrightarrow>
   \<exists>n'. insert_node n pat parts h = Inr n' \<and> part n' = part n \<and> isWild n' = isWild n"
proof (induction n pat parts h rule: insert_node.induct)
  case (1 n pat parts height)
  show ?case
  proof (cases "length parts = height")
    case True
    then show ?thesis by (subst insert_node.simps) simp
  next
    case False
    with "1.prems" have lt: "height < length parts" by simp
    then have ne: "parts ! height \<noteq> []" using "1.prems"(1) by auto
    show ?thesis
    proof (cases "matchChildren n (parts ! height)")
      case None
      from "1.IH"(1)[OF False _ refl None ne "1.prems"(1)] lt
      obtain c where "insert_node (Node [] (parts ! height) []
            (hd (parts ! height) = CHR '':'' \<or> hd (parts ! height) = CHR ''*'')) pat parts (height + 1) = Inr c"
        by auto
      then show ?thesis using False lt None ne
        by (subst insert_node.simps) (simp add: Let_def)
    next
      case (Some k)
      from "1.IH"(2)[OF False _ refl Some "1.prems"(1)] lt
      obtain c where "insert_node (children n ! k) pat parts (height + 1) = Inr c"
        by auto
      then show ?thesis using False lt Some
        by (subst insert_node.simps) (simp add: Let_def)
    qed
  qed
qed

lemma insert_node_wf:
  "insert_node n pat parts h = Inr n' \<Longrightarrow> wf_node P h n \<Longrightarrow> h \<le> length parts \<Longrightarrow>
   (pat \<noteq> [] \<Longrightarrow> length (parsePattern pat) = length parts \<and> P pat) \<Longrightarrow>
   wf_node P h n'"
proof (induction n pat parts h arbitrary: n' rule: insert_node.induct)
  case (1 n pat parts height)
  show ?case
  proof (cases "length parts = height")
    case True
    then have "n' = Node pat (part n) (children n) (isWild n)"
      using "1.prems"(1) by (subst (asm) insert_node.simps) simp
    then show ?thesis using "1.prems"(2,4) True by (auto simp: wf_node_sel[of P height n])
  next
    case False
    with "1.prems" have lt: "height < length parts" by simp
    have kids: "\<forall>c \<in> set (children n). wf_node P (Suc height) c"
      and own: "pattern n \<noteq> [] \<longrightarrow> length (parsePattern (pattern n)) = height \<and> P (pattern n)"
      using "1.prems"(2) by (auto simp: wf_node_sel[of P height n])
    show ?thesis
    proof (cases "matchChildren n (parts ! height)")
      case None
      from "1.prems"(1) False lt None
      obtain c where ne: "parts ! height \<noteq> []"
        and c: "insert_node (Node [] (parts ! height) []
            (hd (parts ! height) = CHR '':'' \<or> hd (parts ! height) = CHR ''*'')) pat parts (height + 1) = Inr c"
        and n': "n' = Node (pattern n) (part n) (children n @ [c]) (isWild n)"
        by (subst (asm) insert_node.simps) (auto simp: Let_def split: if_splits sum.splits)
      have "wf_node P (height + 1) c"
        using "1.IH"(1)[OF False _ refl None ne c] lt "1.prems"(4) by simp
      then show ?thesis using n' kids own by simp
    next
      case (Some k)
      from "1.prems"(1) False lt Some
      obtain c where c: "insert_node (children n ! k) pat parts (height + 1) = Inr c"
        and n': "n' = Node (pattern n) (part n) ((children n)[k := c]) (isWild n)"
        by (subst (asm) insert_node.simps) (auto simp: Let_def split: if_splits sum.splits)
      have k: "k < length (children n)"
        using Some matchIndex_Some by (simp add: matchChildren_def)
      then have "wf_node P (Suc height) (children n ! k)" using kids by simp
      then have "wf_node P (height + 1) c"
        using "1.IH"(2)[OF False _ refl Some c] lt "1.prems"(4) by simp
      then show ?thesis using n' kids own k
        by (auto dest!: set_update_subset_insert[THEN subsetD])
    qed
  qed
qed

lemma matchIndex_update:
  "matchIndex cs p = Some k \<Longrightarrow> part c = part (cs ! k) \<Longrightarrow> isWild c = isWild (cs ! k) \<Longrightarrow>
   matchIndex (cs[k := c]) p = Some k"
  by (induction cs arbitrary: k) (auto split: if_splits)

lemma matchIndex_append:
  "matchIndex cs p = None \<Longrightarrow> part c = p \<Longrightarrow> matchIndex (cs @ [c]) p = Some (length cs)"
  by (induction cs) (auto split: if_splits)

lemma insert_node_keeps:
  "insert_node n pat parts h = Inr n' \<Longrightarrow> part n' = part n \<and> isWild n' = isWild n"
  by (subst (asm) insert_node.simps) (auto simp: Let_def split: if_splits option.splits sum.splits)

lemma insert_node_idem:
  "insert_node n pat parts h = Inr n' \<Longrightarrow> insert_node n' pat parts h = Inr n'"
proof (induction n pat parts h arbitrary: n' rule: insert_node.induct)
  case (1 n pat parts height)
  show ?case
  proof (cases "length parts = height")
    case True
    then have "n' = Node pat (part n) (children n) (isWild n)"
      using "1.prems" by (subst (asm) insert_node.simps) simp
    then show ?thesis using True by (subst insert_node.simps) simp
  next
    case False
    have lt: "\<not> length parts < height"
      using "1.prems" False by (subst (asm) insert_node.simps) (auto split: if_splits)
    show ?thesis
    proof (cases "matchChildren n (parts ! height)")
      case None
      from "1.prems" False lt None
      obtain c where ne: "parts ! height \<noteq> []"
        and c: "insert_node (Node [] (parts ! height) []
            (hd (parts ! height) = CHR '':'' \<or> hd (parts ! height) = CHR ''*'')) pat parts (height + 1) = Inr c"
        and n': "n' = Node (pattern n) (part n) (children n @ [c]) (isWild n)"
        by (subst (asm) insert_node.simps) (auto simp: Let_def split: if_splits sum.splits)
      have cc: "insert_node c pat parts (height + 1) = Inr c"
        using "1.IH"(1)[OF False lt refl None ne c] .
      have "part c = parts ! height" using insert_node_keeps[OF c] by simp
      then have m: "matchChildren n' (parts ! height) = Some (length (children n))"
        using None n' by (simp add: matchChildren_def matchIndex_append)
      show ?thesis using False lt m cc n'
        by (subst insert_node.simps) (simp add: Let_def)
    next
      case (Some k)
      from "1.prems" False lt Some
      obtain c where c: "insert_node (children n ! k) pat parts (height + 1) = Inr c"
        and n': "n' = Node (pattern n) (part n) ((children n)[k := c]) (isWild n)"
        by (subst (asm) insert_node.simps) (auto simp: Let_def split: if_splits sum.splits)
      have k: "k < length (children n)"
        using Some matchIndex_Some by (simp add: matchChildren_def)
      have cc: "insert_node c pat parts (height + 1) = Inr c"
        using "1.IH"(2)[OF False lt refl Some c] .
      have m: "matchChildren n' (parts ! height) = Some k"
        using Some n' insert_node_keeps[OF c] by (simp add: matchChildren_def matchIndex_update)
      show ?thesis using False lt m cc n' k
        by (subst insert_node.simps) (simp add: Let_def)
    qed
  qed
qed

section \<open>Search and parameter extraction stay in range\<close>

lemma search_total:
  "h \<le> length parts \<Longrightarrow> \<exists>res. search n parts h = Inr res"
  "h < length parts \<Longrightarrow> \<exists>res. searchChildren cs parts h p = Inr res"
proof (induction n parts h and cs parts h p rule: search_searchChildren.induct)
  case (1 pat prt cs wild parts height)
  then show ?case by auto
next
  case (2 parts height p)
  then show ?case by simp
next
  case (3 child rest parts height p)
  then show ?case by (auto split: sum.splits option.splits)
qed

lemma search_wf:
  "search n parts h = Inr (Some n') \<Longrightarrow> wf_node P h n \<Longrightarrow> h \<le> length parts \<Longrightarrow>
   pattern n' \<noteq> [] \<and> length (parsePattern (pattern n')) \<le> length parts \<and> P (pattern n')"
  "searchChildren cs parts h p = Inr (Some n') \<Longrightarrow> \<forall>c \<in> set cs. wf_node P (Suc h) c \<Longrightarrow>
   h < length parts \<Longrightarrow>
   pattern n' \<noteq> [] \<and> length (parsePattern (pattern n')) \<le> length parts \<and> P (pattern n')"
proof (induction n parts h and cs parts h p rule: search_searchChildren.induct)
  case (1 pat prt cs wild parts height)
  show ?case
  proof (cases "length parts = height \<or> wild")
    case True
    then show ?thesis using "1.prems" by (auto split: if_splits)
  next
    case False
    then show ?thesis using "1.prems" "1.IH" by (auto split: if_splits)
  qed
next
  case (2 parts height p)
  then show ?case by simp
next
  case (3 child rest parts height p)
  show ?case
  proof (cases "part child = p \<or> isWild child")
    case True
    show ?thesis
    proof (cases "search child parts (height + 1)")
      case (Inl e)
      then show ?thesis using True "3.prems" by simp
    next
      case (Inr res)
      show ?thesis
      proof (cases res)
        case None
        then show ?thesis using True Inr "3.prems" "3.IH"(2)[OF True Inr None] by simp
      next
        case (Some r)
        then have "r = n'" using True Inr "3.prems"(1) by simp
        then show ?thesis using True Inr Some "3.prems" "3.IH"(1)[OF True] by simp
      qed
    qed
  next
    case False
    then show ?thesis using "3.prems" "3.IH"(3)[OF False] by simp
  qed
qed

lemma extractParams_total:
  "(\<forall>p \<in> set ps. p \<noteq> []) \<Longrightarrow> i + length ps \<le> length sp \<Longrightarrow>
   \<exists>res. extractParams ps i sp params = Inr res"
proof (induction ps arbitrary: i params)
  case Nil
  then show ?case by simp
next
  case (Cons p ps)
  then have i: "i < length sp" by simp
  then have "drop i sp \<noteq> []" by simp
  then have "joinParts (drop i sp) = Inr (joinWithSlash (drop i sp))"
    by (rule joinParts_nonempty)
  then show ?case using Cons i by auto
qed

lemma wf_node_descendant:
  "wf_node P h n \<Longrightarrow> x \<in> set (descendantsAt d n) \<Longrightarrow> pattern x \<noteq> [] \<Longrightarrow>
   length (parsePattern (pattern x)) = h + d"
proof (induction d arbitrary: n h)
  case 0
  then show ?case by (simp add: wf_node_sel[of P h n])
next
  case (Suc d)
  from Suc.prems(2) obtain c where c: "c \<in> set (children n)" "x \<in> set (descendantsAt d c)"
    by auto
  then have "wf_node P (Suc h) c" using Suc.prems(1) by (simp add: wf_node_sel[of P h n])
  from Suc.IH[OF this c(2) Suc.prems(3)] show ?case by simp
qed

lemma search_depth:
  "search n parts h = Inr (Some n') \<Longrightarrow> h \<le> length parts \<Longrightarrow>
   \<exists>d. h + d \<le> length parts \<and> n' \<in> set (descendantsAt d n)"
  "searchChildren cs parts h p = Inr (Some n') \<Longrightarrow> h < length parts \<Longrightarrow>
   \<exists>d c. c \<in> set cs \<and> Suc h + d \<le> length parts \<and> n' \<in> set (descendantsAt d c)"
proof (induction n parts h and cs parts h p rule: search_searchChildren.induct)
  case (1 pat prt cs wild parts height)
  show ?case
  proof (cases "length parts = height \<or> wild")
    case True
    then have "n' = Node pat prt cs wild" using "1.prems"(1) by (auto split: if_splits)
    then have "height + 0 \<le> length parts \<and> n' \<in> set (descendantsAt 0 (Node pat prt cs wild))"
      using "1.prems"(2) by simp
    then show ?thesis by blast
  next
    case False
    then have lt: "height < length parts" using "1.prems"(2) by simp
    then have "searchChildren cs parts height (parts ! height) = Inr (Some n')"
      using False "1.prems"(1) by simp
    from "1.IH"[OF False _ this lt] lt
    obtain d c where "c \<in> set cs" "Suc height + d \<le> length parts" "n' \<in> set (descendantsAt d c)"
      by auto
    then have "height + Suc d \<le> length parts \<and> n' \<in> set (descendantsAt (Suc d) (Node pat prt cs wild))"
      by auto
    then show ?thesis by blast
  qed
next
  case (2 parts height p)
  then show ?case by simp
next
  case (3 child rest parts height p)
  show ?case
  proof (cases "part child = p \<or> isWild child")
    case True
    show ?thesis
    proof (cases "search child parts (height + 1)")
      case (Inl e)
      then show ?thesis using True "3.prems" by simp
    next
      case (Inr res)
      show ?thesis
      proof (cases res)
        case None
        then have "searchChildren rest parts height p = Inr (Some n')"
          using True Inr "3.prems"(1) by simp
        from "3.IH"(2)[OF True Inr None this "3.prems"(2)] show ?thesis by auto
      next
        case (Some r)
        then have "search child parts (height + 1) = Inr (Some n')"
          using True Inr "3.prems"(1) by simp
        from "3.IH"(1)[OF True this] "3.prems"(2) show ?thesis by auto
      qed
    qed
  next
    case False
    then have "searchChildren rest parts height p = Inr (Some n')" using "3.prems"(1) by simp
    from "3.IH"(3)[OF False this "3.prems"(2)] show ?thesis by auto
  qed
qed

section \<open>Routers built by registration\<close>

lemma parsePattern_nonempty: "s \<in> set (parsePattern p) \<Longrightarrow> s \<noteq> []"
  by (simp add: parsePattern_splitFrom splitFrom_nonempty)

lemma router_ok_NewRouter: "router_ok NewRouter"
  by (simp add: router_ok_def NewRouter_def)

lemma AddRoutes_ok:
  assumes "router_ok r"
  shows "\<exists>r'. AddRoutes r m pat h = Inr r' \<and> router_ok r'"
proof -
  define n where "n = (case root r m of None \<Rightarrow> Node [] [] [] False | Some n \<Rightarrow> n)"
  let ?P = "\<lambda>k x. handlers r (k @ ''_'' @ x) \<noteq> None"
  let ?hs = "(handlers r)(m @ ''_'' @ pat \<mapsto> h)"
  let ?Q = "\<lambda>k x. ?hs (k @ ''_'' @ x) \<noteq> None"
  have ne: "\<forall>s \<in> set (parsePattern pat). s \<noteq> []"
    using parsePattern_nonempty by blast
  from insert_node_total[OF ne, of 0 n pat]
  obtain n' where n': "insert_node n pat (parsePattern pat) 0 = Inr n'"
    and w: "isWild n' = isWild n" by auto
  have wfn: "wf_node (?P m) 0 n \<and> \<not> isWild n"
    using assms by (auto simp: n_def router_ok_def split: option.splits)
  then have "wf_node (?Q m) 0 n" by (auto elim: wf_node_mono)
  then have wfn': "wf_node (?Q m) 0 n'"
    by (rule insert_node_wf[OF n']) auto
  have eq: "AddRoutes r m pat h = Inr (r\<lparr> root := (root r)(m \<mapsto> n'), handlers := ?hs \<rparr>)"
    using n' by (simp add: AddRoutes_def Let_def n_def)
  have "router_ok (r\<lparr> root := (root r)(m \<mapsto> n'), handlers := ?hs \<rparr>)"
    unfolding router_ok_def
  proof (intro allI impI)
    fix k rt
    assume a: "root (r\<lparr> root := (root r)(m \<mapsto> n'), handlers := ?hs \<rparr>) k = Some rt"
    show "\<not> isWild rt \<and>
          wf_node (\<lambda>x. handlers (r\<lparr> root := (root r)(m \<mapsto> n'), handlers := ?hs \<rparr>)
                         (k @ ''_'' @ x) \<noteq> None) 0 rt"
    proof (cases "k = m")
      case True
      then show ?thesis using a wfn' w wfn by simp
    next
      case False
      then have "root r k = Some rt" using a by simp
      then have "\<not> isWild rt \<and> wf_node (?P k) 0 rt"
        using assms by (simp add: router_ok_def)
      then show ?thesis by (auto elim: wf_node_mono)
    qed
  qed
  with eq show ?thesis by simp
qed

lemma registerAll_ok:
  "router_ok r \<Longrightarrow> \<exists>r'. registerAll r regs = Inr r' \<and> router_ok r'"
proof (induction regs arbitrary: r)
  case Nil
  then show ?case by simp
next
  case (Cons reg regs)
  obtain m pat h where reg: "reg = (m, pat, h)" by (cases reg) auto
  from AddRoutes_ok[OF Cons.prems, of m pat h]
  obtain r1 where r1: "AddRoutes r m pat h = Inr r1" "router_ok r1" by auto
  from Cons.IH[OF r1(2)] show ?case using reg r1(1) by simp
qed

lemma getRoute_ok:
  assumes "router_ok r"
  shows "getRoute r m path = Inr None \<or>
         (\<exists>n ps. getRoute r m path = Inr (Some (n, ps)) \<and> pattern n \<noteq> [] \<and>
                  length (parsePattern (pattern n)) \<le> length (parsePattern path) \<and>
                  handlers r (m @ ''_'' @ pattern n) \<noteq> None)"
proof (cases "root r m")
  case None
  then show ?thesis by (simp add: getRoute_def)
next
  case (Some rt)
  then have wf: "wf_node (\<lambda>x. handlers r (m @ ''_'' @ x) \<noteq> None) 0 rt"
    using assms by (simp add: router_ok_def)
  from search_total(1)[of 0 "parsePattern path" rt]
  obtain res where res: "search rt (parsePattern path) 0 = Inr res" by auto
  show ?thesis
  proof (cases res)
    case None
    then show ?thesis using Some res by (simp add: getRoute_def)
  next
    case (Some n)
    from search_wf(1)[OF res[unfolded Some] wf]
    have n: "pattern n \<noteq> []"
      "length (parsePattern (pattern n)) \<le> length (parsePattern path)"
      "handlers r (m @ ''_'' @ pattern n) \<noteq> None" by auto
    have "\<forall>p \<in> set (parsePattern (pattern n)). p \<noteq> []"
      using parsePattern_nonempty by blast
    from extractParams_total[OF this, of 0 "parsePattern path" Map.empty] n(2)
    obtain ps where "extractParams (parsePattern (pattern n)) 0 (parsePattern path) Map.empty = Inr ps"
      by auto
    then show ?thesis using \<open>root r m = Some rt\<close> res Some n by (simp add: getRoute_def)
  qed
qed

lemma getRoute_depth:
  assumes "router_ok r" and "getRoute r m path = Inr (Some (n, ps))"
  shows "\<exists>rt d. root r m = Some rt \<and> n \<in> set (descendantsAt d rt) \<and>
                length (parsePattern (pattern n)) = d \<and> d \<le> length (parsePattern path)"
proof -
  from assms(2) obtain rt where rt: "root r m = Some rt"
    and s: "search rt (parsePattern path) 0 = Inr (Some n)"
    by (auto simp: getRoute_def Let_def split: option.splits sum.splits)
  have wf: "wf_node (\<lambda>x. handlers r (m @ ''_'' @ x) \<noteq> None) 0 rt"
    using assms(1) rt by (simp add: router_ok_def)
  from search_depth(1)[OF s] obtain d where d: "d \<le> length (parsePattern path)"
    "n \<in> set (descendantsAt d rt)" by auto
  have "pattern n \<noteq> []" using search_wf(1)[OF s wf] by simp
  from wf_node_descendant[OF wf d(2) this] d rt show ?thesis by auto
qed

section \<open>Concrete registrations\<close>

lemmas eval_simps = AddRoutes_def NewRouter_def parsePattern_splitFrom insert_node.simps
  matchChildren_def getRoute_def joinParts_nonempty Let_def

text \<open>
  C1. After registering \<^verbatim>\<open>/p/:lang/doc\<close> on a fresh router under any method,
  resolving \<^verbatim>\<open>/p/go/doc\<close> under that method is a miss, where a match with
  \<open>lang = go\<close> is expected. The tree holds \<open>doc\<close> below \<open>:lang\<close> below \<open>p\<close>, but
  \<^verbatim>\<open>search\<close> stops at every node with \<open>isWild\<close> set, so at the node \<open>:lang\<close>, whose
  pattern is empty, it returns nil, and no other child of \<open>p\<close> is left to try.
\<close>

theorem C1_named_segment_before_last_misses:
  "\<exists>r. AddRoutes NewRouter method ''/p/:lang/doc'' h = Inr r \<and>
       root r method =
         Some (Node [] [] [Node [] ''p'' [Node [] '':lang''
                 [Node ''/p/:lang/doc'' ''doc'' [] False] True] False] False) \<and>
       getRoute r method ''/p/go/doc'' = Inr None"
  by (simp add: eval_simps)

text \<open>
  C2, the text after the wildcard. It is kept, not dropped: parsing \<^verbatim>\<open>/a/*x/b\<close>
  gives the segments \<open>a\<close> and \<open>*x/b\<close>, not \<open>a\<close> and \<open>*x\<close>.
\<close>

theorem C2_wildcard_keeps_tail_counterexample:
  "parsePattern ''/a/*x/b'' = [''a'', ''*x/b''] \<and> parsePattern ''/a/*x/b'' \<noteq> [''a'', ''*x'']"
  by (simp add: parsePattern_splitFrom)

text \<open>
  C2, what parsing does at a wildcard. For a pattern whose first \<open>*\<close> is preceded by the text \<open>pre\<close>, parsing
  stops at that \<open>*\<close>: the result is the segments of \<open>pre\<close> followed by one final
  segment, which is the whole rest of the pattern from the \<open>*\<close> on, with any later
  \<open>/\<close> or \<open>*\<close> left inside it unsplit.
\<close>

theorem C2_wildcard_takes_whole_remainder:
  "CHR ''*'' \<notin> set pre \<Longrightarrow>
   parsePattern (pre @ CHR ''*'' # rest) = parsePattern pre @ [CHR ''*'' # rest]"
  by (simp add: parsePattern_splitFrom splitFrom_star)

theorem C2_wildcard_takes_whole_remainder_witness:
  "CHR ''*'' \<notin> set ''/a/'' \<and> parsePattern (''/a/'' @ CHR ''*'' # ''x/b'') = [''a'', ''*x/b'']"
  using C2_wildcard_takes_whole_remainder [of "''/a/''" "''x/b''"]
  by (simp add: parsePattern_splitFrom)

text \<open>
  C4. After registering \<^verbatim>\<open>/static/*filepath\<close> on a fresh router under any method,
  \<^verbatim>\<open>/static/css/app.css\<close> resolves under that method to the registered node and binds
  \<open>filepath\<close> to \<open>css/app.css\<close>: the path segments from the wildcard position on,
  joined with one \<open>/\<close> between consecutive parts and none at the end. On every
  non-empty list of parts \<^verbatim>\<open>joinParts\<close> returns exactly that join.
\<close>

theorem C4_wildcard_binds_joined_remainder:
  "\<exists>r n params.
     AddRoutes NewRouter method ''/static/*filepath'' h = Inr r \<and>
     getRoute r method ''/static/css/app.css'' = Inr (Some (n, params)) \<and>
     pattern n = ''/static/*filepath'' \<and>
     params ''filepath'' = Some ''css/app.css'' \<and>
     ''css/app.css'' = joinWithSlash (drop 1 (parsePattern ''/static/css/app.css'')) \<and>
     joinParts (x # xs) = Inr (joinWithSlash (x # xs))"
  by (simp add: eval_simps)

section \<open>Middleware assignment and continuation\<close>

lemma assignMiddlewares_concat:
  "assignMiddlewares gs path acc =
     acc @ concat (map middlewares (filter (\<lambda>g. HasPrefix path (prefix g)) gs))"
  by (induction gs arbitrary: acc) auto

text \<open>
  C5. The middleware sequence that \<^verbatim>\<open>ServeHTTP\<close> attaches to the context is the
  concatenation, over the groups in creation order, of the middleware list of every group
  whose prefix is a prefix of the request path. With root middlewares \<open>rs\<close>, a group
  \<^verbatim>\<open>/api\<close> with \<open>as\<close> and then its child \<^verbatim>\<open>/v1\<close> with \<open>bs\<close>, the path
  \<^verbatim>\<open>/api/v1/users\<close> is assigned \<open>rs @ as @ bs\<close>.
\<close>

theorem C5_middlewares_in_group_creation_order:
  "ServeHTTP e w req =
     handle (router e)
       ((newContext w req (engineConfig e))
          \<lparr> middleware :=
              concat (map middlewares
                (filter (\<lambda>g. HasPrefix (Path req) (prefix g)) (groups e))) \<rparr>)
   \<and> (let e0 = Use (New cfg) 0 rs;
          (e1, api) = Group e0 0 ''/api'';
          e2 = Use e1 api as;
          (e3, v1) = Group e2 api ''/v1'';
          e4 = Use e3 v1 bs
      in map prefix (groups e4) = ['''', ''/api'', ''/api/v1''] \<and>
         map middlewares (groups e4) = [rs, as, bs] \<and>
         assignMiddlewares (groups e4) ''/api/v1/users'' [] = rs @ as @ bs)"
  by (simp add: ServeHTTP_def assignMiddlewares_concat Let_def New_def Group_def Use_def
      HasPrefix_def)

text \<open>
  C6. On a context whose cursor is at least its initial value \<open>-1\<close> and below the
  largest machine integer, \<^verbatim>\<open>Next\<close> adds one to the cursor and, when the new cursor
  is below the length of the assigned sequence, calls the middleware at that position
  with the updated context, and calls nothing otherwise. With an empty sequence it only
  moves the cursor.
\<close>

theorem C6_next_advances_cursor_by_one:
  "- 1 \<le> current ctx \<Longrightarrow> current ctx < maxInt \<Longrightarrow>
   Next ctx =
     Inr (ctx\<lparr> current := current ctx + 1 \<rparr>,
          if current ctx + 1 < int (length (middleware ctx))
          then Some (middleware ctx ! nat (current ctx + 1)) else None)
   \<and> Next (ctx\<lparr> middleware := [] \<rparr>) =
       Inr (ctx\<lparr> middleware := [], current := current ctx + 1 \<rparr>, None)"
  by (auto simp: Next_def Let_def incr_def)

theorem C6_next_advances_cursor_by_one_witness:
  "- 1 \<le> current ((newContext () \<lparr> Method = ''GET'', Path = ''/'' \<rparr>
                     \<lparr> AllowOrigins = [], AllowMethods = [], AllowCredentials = False \<rparr>)
                   \<lparr> middleware := [7 :: nat, 8] \<rparr>) \<and>
   current ((newContext () \<lparr> Method = ''GET'', Path = ''/'' \<rparr>
               \<lparr> AllowOrigins = [], AllowMethods = [], AllowCredentials = False \<rparr>)
             \<lparr> middleware := [7 :: nat, 8] \<rparr>) < maxInt \<and>
   Next ((newContext () \<lparr> Method = ''GET'', Path = ''/'' \<rparr>
            \<lparr> AllowOrigins = [], AllowMethods = [], AllowCredentials = False \<rparr>)
          \<lparr> middleware := [7 :: nat, 8] \<rparr>)
     = Inr ((newContext () \<lparr> Method = ''GET'', Path = ''/'' \<rparr>
              \<lparr> AllowOrigins = [], AllowMethods = [], AllowCredentials = False \<rparr>)
            \<lparr> middleware := [7, 8], current := 0 \<rparr>, Some 7)"
  using C6_next_advances_cursor_by_one
    [of "(newContext () \<lparr> Method = ''GET'', Path = ''/'' \<rparr>
           \<lparr> AllowOrigins = [], AllowMethods = [], AllowCredentials = False \<rparr>)
         \<lparr> middleware := [7 :: nat, 8] \<rparr>"]
  by (simp add: newContext_def maxInt_def)

section \<open>Dispatch and misses\<close>

text \<open>
  C3. On a router built by registrations, when the method and path of a request resolve
  to a node, \<^verbatim>\<open>ServeHTTP\<close> calls the handler stored for that node's pattern, and calls
  it directly: the context it passes is the fresh context with the assigned middleware
  sequence attached and the parameter mapping set, and nothing else changed, so its
  cursor is still \<open>-1\<close> and no middleware has been called.
\<close>

theorem C3_dispatch_calls_handler_directly:
  "registerAll NewRouter regs = Inr (router e) \<Longrightarrow>
   getRoute (router e) (Method req) (Path req) = Inr (Some (n, params)) \<Longrightarrow>
   \<exists>h. handlers (router e) (Method req @ ''_'' @ pattern n) = Some h \<and>
       ServeHTTP e w req =
         Inr (Call h ((newContext w req (engineConfig e))
                        \<lparr> middleware := assignMiddlewares (groups e) (Path req) [],
                          Params := params \<rparr>)) \<and>
       current ((newContext w req (engineConfig e))
                  \<lparr> middleware := assignMiddlewares (groups e) (Path req) [],
                    Params := params \<rparr> :: ('h, 'w) Context) = - 1"
proof -
  assume reg: "registerAll NewRouter regs = Inr (router e)"
    and res: "getRoute (router e) (Method req) (Path req) = Inr (Some (n, params))"
  from registerAll_ok[OF router_ok_NewRouter, of regs] reg
  have ok: "router_ok (router e)" by simp
  from getRoute_ok[OF ok, of "Method req" "Path req"] res
  obtain h where h: "handlers (router e) (Method req @ ''_'' @ pattern n) = Some h" by auto
  show ?thesis
    using h res by (simp add: ServeHTTP_def handle_def newContext_def Let_def)
qed

theorem C3_dispatch_calls_handler_directly_witness:
  "registerAll NewRouter [(''GET'', ''/hello/:name'', 1 :: nat)]
     = Inr (router ((New [] :: nat Engine)
              \<lparr> router := \<lparr> root = [''GET'' \<mapsto> Node [] [] [Node [] ''hello''
                                [Node ''/hello/:name'' '':name'' [] True] False] False],
                             handlers = [''GET_/hello/:name'' \<mapsto> 1] \<rparr>,
                groups := [\<lparr> prefix = [], middlewares = [5], parent = None \<rparr>] \<rparr>)) \<and>
   ServeHTTP ((New [] :: nat Engine)
              \<lparr> router := \<lparr> root = [''GET'' \<mapsto> Node [] [] [Node [] ''hello''
                                [Node ''/hello/:name'' '':name'' [] True] False] False],
                             handlers = [''GET_/hello/:name'' \<mapsto> 1] \<rparr>,
                groups := [\<lparr> prefix = [], middlewares = [5], parent = None \<rparr>] \<rparr>)
     () \<lparr> Method = ''GET'', Path = ''/hello/bob'' \<rparr>
     = Inr (Call 1 \<lparr> Request = \<lparr> Method = ''GET'', Path = ''/hello/bob'' \<rparr>,
                      ResponseWriter = (), Params = [''name'' \<mapsto> ''bob''],
                      HTTPMethod = ''GET'', RoutePath = ''/hello/bob'', ResponseCode = 0,
                      current = - 1,
                      config = \<lparr> AllowOrigins = [], AllowMethods = [],
                                 AllowCredentials = False \<rparr>,
                      middleware = [5] \<rparr>)"
  using C3_dispatch_calls_handler_directly
    [of "[(''GET'', ''/hello/:name'', 1 :: nat)]"
        "(New [] :: nat Engine)
              \<lparr> router := \<lparr> root = [''GET'' \<mapsto> Node [] [] [Node [] ''hello''
                                [Node ''/hello/:name'' '':name'' [] True] False] False],
                             handlers = [''GET_/hello/:name'' \<mapsto> 1] \<rparr>,
                groups := [\<lparr> prefix = [], middlewares = [5], parent = None \<rparr>] \<rparr>"
        "\<lparr> Method = ''GET'', Path = ''/hello/bob'' \<rparr>"
        "Node ''/hello/:name'' '':name'' [] True" "[''name'' \<mapsto> ''bob'']" "()"]
  by (simp add: eval_simps New_def newContext_def HasPrefix_def)


section \<open>Round trip and re-registration\<close>

text \<open>
  C8. For every pattern without a wildcard, parsing it, joining the segments with a
  single \<open>/\<close> between consecutive segments, and parsing the joined text gives the
  same segments as parsing the pattern once; a pattern without segments, such as
  \<^verbatim>\<open>/\<close>, joins to the empty text, which parses to no segments again. Whenever the
  pattern has a segment, \<^verbatim>\<open>joinParts\<close> returns exactly that joined text.
\<close>

theorem C8_parse_join_parse_roundtrip:
  "CHR ''*'' \<notin> set P \<Longrightarrow>
   parsePattern (joinWithSlash (parsePattern P)) = parsePattern P \<and>
   (parsePattern P \<noteq> [] \<longrightarrow>
      joinParts (parsePattern P) = Inr (joinWithSlash (parsePattern P)))"
proof -
  assume star: "CHR ''*'' \<notin> set P"
  have "\<forall>x \<in> set (parsePattern P). x \<noteq> [] \<and> CHR ''/'' \<notin> set x \<and> CHR ''*'' \<notin> set x"
    using star splitFrom_plain[of _ "[]" P] parsePattern_nonempty[of _ P]
    by (auto simp: parsePattern_splitFrom)
  then have "parsePattern (joinWithSlash (parsePattern P)) = parsePattern P"
    using splitFrom_joinWithSlash[of "parsePattern P"] by (simp add: parsePattern_splitFrom)
  then show ?thesis using joinParts_nonempty[of "parsePattern P"] by simp
qed

theorem C8_parse_join_parse_roundtrip_witness:
  "CHR ''*'' \<notin> set ''//p/:lang/doc/'' \<and>
   parsePattern ''//p/:lang/doc/'' = [''p'', '':lang'', ''doc''] \<and>
   joinWithSlash (parsePattern ''//p/:lang/doc/'') = ''p/:lang/doc'' \<and>
   joinParts (parsePattern ''//p/:lang/doc/'') = Inr ''p/:lang/doc'' \<and>
   parsePattern ''p/:lang/doc'' = parsePattern ''//p/:lang/doc/''"
  using C8_parse_join_parse_roundtrip [of "''//p/:lang/doc/''"]
  by (simp add: parsePattern_splitFrom joinParts_nonempty)

text \<open>
  C9. Registering the same method and pattern twice, first with \<open>h1\<close> and then with
  \<open>h2\<close>, on any router: both registrations succeed, the second leaves every tree as
  the first left it, the handler table differs only in that the key of the pair now holds
  \<open>h2\<close>, and the router is the one obtained by registering \<open>h2\<close> once. Resolution
  is the same after the second registration as after the first, and a request that
  resolves to a node storing this pattern is dispatched to \<open>h2\<close>.
\<close>

theorem C9_reregistration_overwrites_handler:
  "\<exists>r1 r2.
     AddRoutes r method pat h1 = Inr r1 \<and>
     AddRoutes r1 method pat h2 = Inr r2 \<and>
     root r2 = root r1 \<and>
     handlers r2 = (handlers r1)(method @ ''_'' @ pat \<mapsto> h2) \<and>
     AddRoutes r method pat h2 = Inr r2 \<and>
     (\<forall>m path. getRoute r2 m path = getRoute r1 m path) \<and>
     (\<forall>(ctx :: ('h, 'w) Context) n params.
        HTTPMethod ctx = method \<and>
        getRoute r2 method (RoutePath ctx) = Inr (Some (n, params)) \<and> pattern n = pat \<longrightarrow>
        handle r2 ctx = Inr (Call h2 (ctx\<lparr> Params := params \<rparr>)))"
proof -
  define n where "n = (case root r method of None \<Rightarrow> Node [] [] [] False | Some n \<Rightarrow> n)"
  define key where "key = method @ ''_'' @ pat"
  have "\<forall>s \<in> set (parsePattern pat). s \<noteq> []"
    using parsePattern_nonempty by blast
  from insert_node_total[OF this, of 0 n pat]
  obtain n1 where n1: "insert_node n pat (parsePattern pat) 0 = Inr n1" by auto
  have idem: "insert_node n1 pat (parsePattern pat) 0 = Inr n1"
    using n1 by (rule insert_node_idem)
  define r1 where "r1 = r\<lparr> root := (root r)(method \<mapsto> n1), handlers := (handlers r)(key \<mapsto> h1) \<rparr>"
  define r2 where "r2 = r\<lparr> root := (root r)(method \<mapsto> n1), handlers := (handlers r)(key \<mapsto> h2) \<rparr>"
  have a: "AddRoutes r method pat h1 = Inr r1"
    using n1 by (simp add: AddRoutes_def Let_def n_def r1_def key_def)
  have b: "AddRoutes r1 method pat h2 = Inr r2"
    using idem by (simp add: AddRoutes_def Let_def r1_def r2_def key_def)
  have c: "root r2 = root r1" by (simp add: r1_def r2_def)
  have d: "handlers r2 = (handlers r1)(method @ ''_'' @ pat \<mapsto> h2)"
    by (simp add: r1_def r2_def key_def)
  have e: "AddRoutes r method pat h2 = Inr r2"
    using n1 by (simp add: AddRoutes_def Let_def n_def r2_def key_def)
  have f: "\<forall>m path. getRoute r2 m path = getRoute r1 m path"
    using c by (simp add: getRoute_def)
  have g: "\<forall>(ctx :: ('h, 'w) Context) n params.
        HTTPMethod ctx = method \<and>
        getRoute r2 method (RoutePath ctx) = Inr (Some (n, params)) \<and> pattern n = pat \<longrightarrow>
        handle r2 ctx = Inr (Call h2 (ctx\<lparr> Params := params \<rparr>))"
    by (auto simp: handle_def Let_def r2_def key_def)
  show ?thesis by (intro exI[of _ r1] exI[of _ r2] conjI a b c d e f g)
qed

theorem C9_reregistration_overwrites_handler_witness:
  "\<exists>r1 r2.
     AddRoutes NewRouter ''GET'' ''/hello'' (1 :: nat) = Inr r1 \<and>
     AddRoutes r1 ''GET'' ''/hello'' 2 = Inr r2 \<and>
     root r2 = root r1 \<and>
     getRoute r2 ''GET'' ''/hello'' = Inr (Some (Node ''/hello'' ''hello'' [] False, Map.empty)) \<and>
     handle r2 ((newContext () \<lparr> Method = ''GET'', Path = ''/hello'' \<rparr>
                   \<lparr> AllowOrigins = [], AllowMethods = [], AllowCredentials = False \<rparr>)
                 :: (nat, unit) Context)
       = Inr (Call 2 (newContext () \<lparr> Method = ''GET'', Path = ''/hello'' \<rparr>
                   \<lparr> AllowOrigins = [], AllowMethods = [], AllowCredentials = False \<rparr>))"
  using C9_reregistration_overwrites_handler
    [of "NewRouter :: nat router" "''GET''" "''/hello''" 1 2]
  by (simp add: eval_simps handle_def newContext_def)

section \<open>Resolution stays in bounds\<close>

text \<open>
  C10. After any sequence of registrations on a fresh router (none of which panics),
  resolving any method and path never reads out of range: parsing yields non-empty
  segments only, and resolution either misses or returns a node that lies at some depth
  \<open>d\<close> of the method's tree, whose stored pattern has exactly \<open>d\<close> segments, all
  non-empty, with \<open>d\<close> at most the number of segments of the path.
\<close>

theorem C10_resolution_stays_in_bounds:
  "\<exists>r. registerAll NewRouter regs = Inr r \<and>
       (\<forall>s \<in> set (parsePattern path). s \<noteq> []) \<and>
       (getRoute r method path = Inr None \<or>
        (\<exists>rt n params d.
           root r method = Some rt \<and>
           getRoute r method path = Inr (Some (n, params)) \<and>
           n \<in> set (descendantsAt d rt) \<and>
           length (parsePattern (pattern n)) = d \<and>
           d \<le> length (parsePattern path) \<and>
           (\<forall>s \<in> set (parsePattern (pattern n)). s \<noteq> [])))"
proof -
  from registerAll_ok[OF router_ok_NewRouter, of regs]
  obtain r where r: "registerAll NewRouter regs = Inr r" and ok: "router_ok r" by auto
  have a: "\<forall>s \<in> set (parsePattern path). s \<noteq> []"
    using parsePattern_nonempty by blast
  have b: "getRoute r method path = Inr None \<or>
        (\<exists>rt n params d.
           root r method = Some rt \<and>
           getRoute r method path = Inr (Some (n, params)) \<and>
           n \<in> set (descendantsAt d rt) \<and>
           length (parsePattern (pattern n)) = d \<and>
           d \<le> length (parsePattern path) \<and>
           (\<forall>s \<in> set (parsePattern (pattern n)). s \<noteq> []))"
  proof (cases "getRoute r method path = Inr None")
    case True
    then show ?thesis by simp
  next
    case False
    with getRoute_ok[OF ok, of "method" "path"]
    obtain n ps where g: "getRoute r method path = Inr (Some (n, ps))" by auto
    from getRoute_depth[OF ok g]
    obtain rt d where "root r method = Some rt" "n \<in> set (descendantsAt d rt)"
      "length (parsePattern (pattern n)) = d" "d \<le> length (parsePattern path)" by auto
    moreover have "\<forall>s \<in> set (parsePattern (pattern n)). s \<noteq> []"
      using parsePattern_nonempty by blast
    ultimately show ?thesis using g by blast
  qed
  show ?thesis by (intro exI[of _ r] conjI r a b)
qed

theorem C10_resolution_stays_in_bounds_witness:
  "parsePattern ''/static/css/app.css'' = [''static'', ''css'', ''app.css''] \<and>
   (\<exists>r. registerAll NewRouter
           [(''GET'', ''/static/*filepath'', 1 :: nat), (''GET'', ''/p/:lang/doc'', 2)] = Inr r \<and>
        (\<exists>rt n params.
           root r ''GET'' = Some rt \<and>
           getRoute r ''GET'' ''/static/css/app.css'' = Inr (Some (n, params)) \<and>
           n \<in> set (descendantsAt 2 rt) \<and>
           parsePattern (pattern n) = [''static'', ''*filepath'']))"
  using C10_resolution_stays_in_bounds
    [of "[(''GET'', ''/static/*filepath'', 1 :: nat), (''GET'', ''/p/:lang/doc'', 2)]"
        "''/static/css/app.css''" "''GET''"]
  by (simp add: eval_simps numeral_2_eq_2)

end
